theory Spec2Isabelle
  imports Main "HOL-Library.Sublist"
begin

section \<open>JavaScript strings and values used by index.js\<close>

text \<open>
  Strings are lists of code units below 256 (\<open>char\<close>); the program's own literals and
  the file names of the scenarios are ASCII. The built-in string methods are modelled
  with the results ECMAScript gives them, including \<open>-1\<close> for "not found".
\<close>

text \<open>\<open>s.indexOf(sub)\<close>: the first position where \<open>sub\<close> occurs in \<open>s\<close>, else \<open>-1\<close>.\<close>

fun indexOf_from :: "nat \<Rightarrow> string \<Rightarrow> string \<Rightarrow> int" where
  "indexOf_from i [] sub = (if sub = [] then int i else - 1)"
| "indexOf_from i (c # cs) sub =
     (if prefix sub (c # cs) then int i else indexOf_from (Suc i) cs sub)"

definition indexOf :: "string \<Rightarrow> string \<Rightarrow> int" where
  "indexOf s sub = indexOf_from 0 s sub"

text \<open>\<open>s.lastIndexOf(sub)\<close>: the last position where \<open>sub\<close> occurs in \<open>s\<close>, else \<open>-1\<close>.\<close>

fun lastIndexOf_from :: "nat \<Rightarrow> int \<Rightarrow> string \<Rightarrow> string \<Rightarrow> int" where
  "lastIndexOf_from i found [] sub = (if sub = [] then int i else found)"
| "lastIndexOf_from i found (c # cs) sub =
     lastIndexOf_from (Suc i) (if prefix sub (c # cs) then int i else found) cs sub"

definition lastIndexOf :: "string \<Rightarrow> string \<Rightarrow> int" where
  "lastIndexOf s sub = lastIndexOf_from 0 (- 1) s sub"

text \<open>\<open>s.substr(start)\<close>: a negative start counts from the end, clamped at 0.\<close>

definition substr :: "string \<Rightarrow> int \<Rightarrow> string" where
  "substr s start =
     (if start < 0 then drop (nat (max 0 (int (length s) + start))) s
      else drop (nat start) s)"

text \<open>
  \<open>s.toLowerCase()\<close> on code units below 256: \<open>A\<close>..\<open>Z\<close> and the Latin-1 capitals
  \<open>0xC0\<close>..\<open>0xDE\<close> (without the multiplication sign \<open>0xD7\<close>) move up by 32.
\<close>

definition lower_char :: "char \<Rightarrow> char" where
  "lower_char c =
     (let n = (of_char c :: nat)
      in if (65 \<le> n \<and> n \<le> 90) \<or> (192 \<le> n \<and> n \<le> 222 \<and> n \<noteq> 215)
         then char_of (n + 32) else c)"

definition toLowerCase :: "string \<Rightarrow> string" where
  "toLowerCase s = map lower_char s"

text \<open>\<open>s.split(" ")\<close>: cuts at every single space; the result is never empty.\<close>

fun split_space :: "string \<Rightarrow> string list" where
  "split_space [] = [[]]"
| "split_space (c # cs) =
     (if c = CHR '' '' then [] # split_space cs
      else (case split_space cs of
              [] \<Rightarrow> [[c]]
            | w # ws \<Rightarrow> (c # w) # ws))"

text \<open>
  \<open>isNaN(parseFloat(s))\<close>. \<open>parseFloat\<close> skips leading white space and reads the longest
  prefix that is a decimal literal: an optional sign, then \<open>Infinity\<close>, or digits, or a
  dot followed by a digit. It returns NaN exactly when there is no such prefix. Only
  this test is needed here, not the number read.
\<close>

definition is_white_space :: "char \<Rightarrow> bool" where
  "is_white_space c = ((of_char c :: nat) \<in> {9, 10, 11, 12, 13, 32, 160})"

definition is_digit :: "char \<Rightarrow> bool" where
  "is_digit c = (48 \<le> (of_char c :: nat) \<and> (of_char c :: nat) \<le> 57)"

definition strip_sign :: "string \<Rightarrow> string" where
  "strip_sign s =
     (case s of
        [] \<Rightarrow> []
      | c # cs \<Rightarrow> if c = CHR ''+'' \<or> c = CHR ''-'' then cs else s)"

definition starts_number :: "string \<Rightarrow> bool" where
  "starts_number s =
     (prefix ''Infinity'' s \<or>
      (case s of
         [] \<Rightarrow> False
       | c # cs \<Rightarrow>
           is_digit c \<or>
           (c = CHR ''.'' \<and> (case cs of [] \<Rightarrow> False | d # _ \<Rightarrow> is_digit d))))"

definition parseFloat_isNaN :: "string \<Rightarrow> bool" where
  "parseFloat_isNaN s = (\<not> starts_number (strip_sign (dropWhile is_white_space s)))"

text \<open>The values a function of index.js returns where a boolean is expected.\<close>

datatype js_value = JSUndefined | JSBool bool

fun truthy :: "js_value \<Rightarrow> bool" where
  "truthy JSUndefined = False"
| "truthy (JSBool b) = b"

section \<open>Flags: \<open>checkArgsForFlag\<close> and the start of \<open>main\<close>\<close>

text \<open>
  \<open>Boolean(args.find((a) => a.indexOf(flag) === 0))\<close>: \<open>find\<close> gives the first argument
  that has the flag at position 0, or \<open>undefined\<close>; \<open>Boolean\<close> of a string is false
  only for the empty string.
\<close>

definition checkArgsForFlag :: "string list \<Rightarrow> string \<Rightarrow> bool" where
  "checkArgsForFlag args flag =
     (case find (\<lambda>a. indexOf a flag = 0) args of
        None \<Rightarrow> False
      | Some a \<Rightarrow> a \<noteq> [])"

section \<open>The output classifier \<open>hack_IsErrorAnError\<close>\<close>

text \<open>
  The argument is \<open>Some\<close> text when a string is passed and \<open>None\<close> when the call passes
  nothing (\<open>typeof err\<close> is then not \<open>"string"\<close>). The \<open>try\<close> body can only throw when
  the last element read from the split is \<open>undefined\<close>, that is when the split is
  empty; the \<open>catch\<close> returns \<open>true\<close>. After the \<open>try\<close> the function ends without a
  \<open>return\<close>, so its value is \<open>undefined\<close>.
\<close>

definition hack_IsErrorAnError :: "string option \<Rightarrow> js_value" where
  "hack_IsErrorAnError err =
     (let errSplit = (case err of Some s \<Rightarrow> split_space s | None \<Rightarrow> [[]])
      in if errSplit = [] then JSBool True
         else
           (let errStrToCheck = last errSplit;
                isADecimal = (indexOf errStrToCheck ''.'' \<noteq> - 1);
                isValidFloat = (\<not> parseFloat_isNaN errStrToCheck)
            in if isADecimal \<and> isValidFloat then JSBool False else JSUndefined))"

section \<open>The item enumerator\<close>

definition COMPATIBLE_FILE_EXTS :: "string list" where
  "COMPATIBLE_FILE_EXTS = [''png'', ''jpg'', ''jpeg'']"

text \<open>\<open>xs.findIndex(p)\<close>: the index of the first element satisfying \<open>p\<close>, else \<open>-1\<close>.\<close>

fun findIndex_from :: "nat \<Rightarrow> ('a \<Rightarrow> bool) \<Rightarrow> 'a list \<Rightarrow> int" where
  "findIndex_from i p [] = - 1"
| "findIndex_from i p (x # xs) = (if p x then int i else findIndex_from (Suc i) p xs)"

definition findIndex :: "('a \<Rightarrow> bool) \<Rightarrow> 'a list \<Rightarrow> int" where
  "findIndex p xs = findIndex_from 0 p xs"

text \<open>The callback given to \<open>filter\<close> on the directory listing.\<close>

definition compatible_entry :: "string \<Rightarrow> bool" where
  "compatible_entry e =
     (let eExt = substr (toLowerCase e) (lastIndexOf e ''.'' + 1)
      in findIndex (\<lambda>ext. indexOf ext eExt \<noteq> - 1) COMPATIBLE_FILE_EXTS \<noteq> - 1)"

definition inputFiles_of :: "string list \<Rightarrow> string list" where
  "inputFiles_of listing = filter compatible_entry listing"

section \<open>Global variables and constants\<close>

text \<open>The mutable globals of lines 14 to 17; after the set-up of \<open>main\<close> they do not change.\<close>

record globals =
  silentMode :: bool
  testMode :: bool
  inputDirectory :: string
  outputDirectory :: string

definition initial_globals :: globals where
  "initial_globals =
     \<lparr>silentMode = False, testMode = False,
      inputDirectory = ''input/'', outputDirectory = ''output/''\<rparr>"

definition MAX_CONCURRENT_FILES :: int where
  "MAX_CONCURRENT_FILES = 3"

definition BASE_WEBP_SETTINGS :: "string list" where
  "BASE_WEBP_SETTINGS =
     [''-mt'', ''-q 50'', ''-pass 10'', ''-m 6'', ''-alpha_filter best'', ''-short'', ''-af'']"

text \<open>
  Lines 46 to 51: with \<open>-h\<close> the help text is logged and \<open>main\<close> returns before the
  two mode variables are assigned. The first component says whether that happened.
\<close>

definition setup_flags :: "string list \<Rightarrow> globals \<Rightarrow> bool \<times> globals" where
  "setup_flags args g =
     (if checkArgsForFlag args ''-h'' then (True, g)
      else (False, g\<lparr>silentMode := checkArgsForFlag args ''-s'',
                      testMode := checkArgsForFlag args ''-t''\<rparr>))"

section \<open>The batch: one promise per input file\<close>

text \<open>
  Where the async executor of an item stands: not yet called by \<open>map\<close>; suspended in
  \<open>await waitForTruth(...)\<close> with the promise pending (a timer re-checks the
  predicate); promise resolved but the code after the \<open>await\<close> not yet resumed;
  process spawned and handlers registered; nothing left to run.
\<close>

datatype status = NotStarted | Waiting | Admitted | Running | Finished

text \<open>What \<open>console.error\<close> reports about an item.\<close>

datatype failure = NonZeroExit int | StderrError string

text \<open>
  The state shared by all items: the counter \<open>concurrency\<close> and the array
  \<open>BASE_WEBP_SETTINGS\<close> (here \<open>settings\<close>), which every item pushes onto through the
  alias \<open>cwebpArgs\<close>. The other fields record what happened: the calls of \<open>spawn\<close>
  with the contents of the argument array at the call, the calls of \<open>resolve(err)\<close>,
  the reported failures, and which item ran \<open>concurrency++\<close> and \<open>concurrency--\<close>.
\<close>

record state =
  inputFiles :: "string list"
  concurrency :: int
  settings :: "string list"
  status :: "status list"
  spawned :: "(nat \<times> string list) list"
  resolved :: "(nat \<times> string option) list"
  failures :: "(nat \<times> failure) list"
  increments :: "nat list"
  decrements :: "nat list"

definition initial_state :: "string list \<Rightarrow> state" where
  "initial_state files =
     \<lparr>inputFiles = files, concurrency = 0, settings = BASE_WEBP_SETTINGS,
      status = replicate (length files) NotStarted,
      spawned = [], resolved = [], failures = [], increments = [], decrements = []\<rparr>"

text \<open>The local \<open>resolve(err)\<close>: logs the outcome and resolves the item's promise.\<close>

definition resolve :: "nat \<Rightarrow> string option \<Rightarrow> state \<Rightarrow> state" where
  "resolve i err s = s\<lparr>resolved := resolved s @ [(i, err)]\<rparr>"

definition output_arg :: "globals \<Rightarrow> string \<Rightarrow> string" where
  "output_arg g e = ''-o '' @ [CHR 0x22] @ outputDirectory g @ e @ ''.webp'' @ [CHR 0x22]"

definition input_arg :: "globals \<Rightarrow> string \<Rightarrow> string" where
  "input_arg g e = [CHR 0x22] @ inputDirectory g @ e @ [CHR 0x22]"

text \<open>Lines 112 to 151, the code of an item after the admission check.\<close>

definition run_item :: "globals \<Rightarrow> nat \<Rightarrow> state \<Rightarrow> state" where
  "run_item g i s =
     (if \<not> testMode g then
        (let e = inputFiles s ! i;
             cwebpArgs = settings s @ [output_arg g e, input_arg g e]
         in s\<lparr>concurrency := concurrency s + 1,
               increments := increments s @ [i],
               settings := cwebpArgs,
               spawned := spawned s @ [(i, cwebpArgs)],
               status := (status s)[i := Running]\<rparr>)
      else resolve i None (s\<lparr>status := (status s)[i := Finished]\<rparr>))"

text \<open>
  Lines 107 to 109, run when \<open>map\<close> calls the executor of item \<open>i\<close>: at the limit the
  item suspends (the first check inside \<open>waitForTruth\<close> fails, since nothing ran in
  between); below the limit it goes on at once, with no suspension.
\<close>

definition start_item :: "globals \<Rightarrow> nat \<Rightarrow> state \<Rightarrow> state" where
  "start_item g i s =
     (if concurrency s \<ge> MAX_CONCURRENT_FILES
      then s\<lparr>status := (status s)[i := Waiting]\<rparr>
      else run_item g i s)"

text \<open>\<open>inputFiles.map(...)\<close>: the executors are called one after the other, in order.\<close>

definition start_batch :: "globals \<Rightarrow> string list \<Rightarrow> state" where
  "start_batch g files = fold (start_item g) [0..<length files] (initial_state files)"

text \<open>\<open>s.trim()\<close>.\<close>

definition trim :: "string \<Rightarrow> string" where
  "trim s = rev (dropWhile is_white_space (rev (dropWhile is_white_space s)))"

text \<open>The handler of \<open>"data"\<close> on stderr, lines 140 to 148. The classifier is called
  with no argument.\<close>

definition on_stderr_data :: "nat \<Rightarrow> string \<Rightarrow> state \<Rightarrow> state" where
  "on_stderr_data i data s =
     (let err = trim data
      in if \<not> truthy (hack_IsErrorAnError None) then s
         else resolve i (Some err)
                (s\<lparr>failures := failures s @ [(i, StderrError err)],
                   concurrency := concurrency s - 1,
                   decrements := decrements s @ [i]\<rparr>))"

text \<open>The handler of \<open>"close"\<close>, lines 132 to 138; afterwards the process emits nothing.\<close>

definition on_close :: "nat \<Rightarrow> int \<Rightarrow> state \<Rightarrow> state" where
  "on_close i code s =
     resolve i None
       (s\<lparr>failures := (if code \<noteq> 0 then failures s @ [(i, NonZeroExit code)] else failures s),
          concurrency := concurrency s - 1,
          decrements := decrements s @ [i],
          status := (status s)[i := Finished]\<rparr>)"

text \<open>
  What the event loop can run next, each a callback that runs to completion: the timer
  of a suspended item re-checks the predicate (\<open>retry\<close> in \<open>waitForTruth\<close>); an
  admitted item resumes after its \<open>await\<close>; a running process emits stderr data or
  closes with an exit code. \<open>None\<close> means the event cannot happen in that state.
\<close>

datatype event = Poll nat | Resume nat | StderrData nat string | Close nat int

fun step :: "globals \<Rightarrow> event \<Rightarrow> state \<Rightarrow> state option" where
  "step g (Poll i) s =
     (if i < length (status s) \<and> status s ! i = Waiting
      then Some (if concurrency s < MAX_CONCURRENT_FILES
                 then s\<lparr>status := (status s)[i := Admitted]\<rparr> else s)
      else None)"
| "step g (Resume i) s =
     (if i < length (status s) \<and> status s ! i = Admitted
      then Some (run_item g i s) else None)"
| "step g (StderrData i data) s =
     (if i < length (status s) \<and> status s ! i = Running
      then Some (on_stderr_data i data s) else None)"
| "step g (Close i code) s =
     (if i < length (status s) \<and> status s ! i = Running
      then Some (on_close i code s) else None)"

fun run :: "globals \<Rightarrow> event list \<Rightarrow> state \<Rightarrow> state option" where
  "run g [] s = Some s"
| "run g (ev # evs) s =
     (case step g ev s of None \<Rightarrow> None | Some s' \<Rightarrow> run g evs s')"

text \<open>\<open>Promise.all\<close> resolves when the promise of every item has been resolved.\<close>

definition batch_resolved :: "state \<Rightarrow> bool" where
  "batch_resolved s =
     list_all (\<lambda>i. i \<in> set (map fst (resolved s))) [0..<length (inputFiles s)]"

definition calls_for :: "nat \<Rightarrow> (nat \<times> 'a) list \<Rightarrow> nat" where
  "calls_for i xs = count_list (map fst xs) i"

section \<open>\<open>main\<close> up to the start of the batch\<close>

text \<open>What \<open>main\<close> reads from its surroundings: \<open>fs.existsSync\<close>, \<open>path.resolve\<close>,
  \<open>fs.readdirSync\<close> and \<open>os.platform()\<close>.\<close>

record env =
  existsSync :: "string \<Rightarrow> bool"
  path_resolve :: "string \<Rightarrow> string"
  readdirSync :: "string \<Rightarrow> string list"
  osType :: string

definition cwebpPath :: "env \<Rightarrow> string" where
  "cwebpPath env =
     path_resolve env (''bin/cwebp'' @ (if osType env = ''win32'' then ''.exe'' else []))"

datatype main_result = HelpShown | PathsMissing | BatchStarted globals state

text \<open>Lines 54 to 65: the first two arguments replace the directories when they exist.\<close>

definition configure_directories :: "env \<Rightarrow> string list \<Rightarrow> globals \<Rightarrow> globals" where
  "configure_directories env args g =
     (let g1 = (if length args \<ge> 1 \<and> existsSync env (args ! 0)
                then g\<lparr>inputDirectory := path_resolve env (args ! 0)\<rparr> else g)
      in if length args \<ge> 2 \<and> existsSync env (args ! 1)
         then g1\<lparr>outputDirectory := path_resolve env (args ! 1)\<rparr> else g1)"

definition main :: "env \<Rightarrow> string list \<Rightarrow> main_result" where
  "main env args =
     (case setup_flags args initial_globals of
        (True, _) \<Rightarrow> HelpShown
      | (False, g0) \<Rightarrow>
          (let g = configure_directories env args g0
           in if \<not> existsSync env (inputDirectory g) \<or>
                 \<not> existsSync env (outputDirectory g) \<or>
                 \<not> existsSync env (cwebpPath env)
              then PathsMissing
              else BatchStarted g
                     (start_batch g (inputFiles_of (readdirSync env (inputDirectory g))))))"

text \<open>
  An installation for the examples: the default directories and the converter exist,
  and the input directory holds two images.
\<close>

definition example_env :: env where
  "example_env =
     \<lparr>existsSync = (\<lambda>p. p = ''input/'' \<or> p = ''output/'' \<or> p = ''/app/bin/cwebp''),
      path_resolve = (\<lambda>p. ''/app/'' @ p),
      readdirSync = (\<lambda>d. if d = ''input/'' then [''a.png'', ''b.png''] else []),
      osType = ''linux''\<rparr>"

section \<open>What holds in every state of a batch\<close>

text \<open>
  The counter equals the number of running processes; an item has been counted up once
  when its process was spawned and counted down once when its process closed, and
  \<open>resolve\<close> has been called once for each finished item and for no other.
\<close>

definition batch_inv :: "globals \<Rightarrow> state \<Rightarrow> bool" where
  "batch_inv g s \<longleftrightarrow>
     length (status s) = length (inputFiles s) \<and>
     concurrency s = int (count_list (status s) Running) \<and>
     (testMode g \<longrightarrow> count_list (status s) Running = 0) \<and>
     (\<forall>i. calls_for i (resolved s) =
            (if i < length (status s) \<and> status s ! i = Finished then 1 else 0)) \<and>
     (\<forall>i. count_list (increments s) i =
            (if i < length (status s) \<and> status s ! i \<in> {Running, Finished} \<and> \<not> testMode g
             then 1 else 0)) \<and>
     (\<forall>i. count_list (decrements s) i =
            (if i < length (status s) \<and> status s ! i = Finished \<and> \<not> testMode g
             then 1 else 0)) \<and>
     (\<forall>i. calls_for i (spawned s) = count_list (increments s) i) \<and>
     length (resolved s) = count_list (status s) Finished \<and>
     length (increments s) =
       (if testMode g then 0
        else count_list (status s) Running + count_list (status s) Finished) \<and>
     length (decrements s) = (if testMode g then 0 else count_list (status s) Finished) \<and>
     length (spawned s) = length (increments s) \<and>
     snd ` set (resolved s) \<subseteq> {None}"

text \<open>The item an event belongs to.\<close>

definition item_of :: "event \<Rightarrow> nat" where
  "item_of ev = (case ev of Poll i \<Rightarrow> i | Resume i \<Rightarrow> i | StderrData i _ \<Rightarrow> i | Close i _ \<Rightarrow> i)"

text \<open>
  Schedules in which an admitted item resumes before any other callback runs, so that
  the check in \<open>waitForTruth\<close> and \<open>concurrency++\<close> are not separated. \<open>run_fused\<close> is
  \<open>run\<close> restricted to such schedules.
\<close>

fun is_resume :: "event \<Rightarrow> bool" where
  "is_resume (Resume i) = True"
| "is_resume ev = False"

fun run_fused :: "globals \<Rightarrow> event list \<Rightarrow> state \<Rightarrow> state option" where
  "run_fused g [] s = Some s"
| "run_fused g (ev # evs) s =
     (if Admitted \<in> set (status s) \<and> \<not> is_resume ev then None
      else (case step g ev s of None \<Rightarrow> None | Some s' \<Rightarrow> run_fused g evs s'))"

text \<open>The counter together with the admitted items that have not counted up yet.\<close>

definition admission_inv :: "state \<Rightarrow> bool" where
  "admission_inv s \<longleftrightarrow>
     concurrency s + int (count_list (status s) Admitted) \<le> MAX_CONCURRENT_FILES"

section \<open>Properties of the string functions, the flags and the classifier\<close>

lemma indexOf_from_range: "indexOf_from i s sub = - 1 \<or> int i \<le> indexOf_from i s sub"
  by (induction s arbitrary: i) (auto, force)

lemma indexOf_from_here: "indexOf_from i s sub = int i \<longleftrightarrow> prefix sub s"
proof (cases s)
  case Nil
  then show ?thesis by auto
next
  case (Cons c cs)
  show ?thesis
  proof (cases "prefix sub s")
    case True
    then show ?thesis using Cons by simp
  next
    case False
    have "indexOf_from (Suc i) cs sub \<noteq> int i"
      using indexOf_from_range [of "Suc i" cs sub] by auto
    then show ?thesis using False Cons by simp
  qed
qed

lemma indexOf_zero_iff: "indexOf a flag = 0 \<longleftrightarrow> prefix flag a"
  using indexOf_from_here [of 0 a flag] by (simp add: indexOf_def)

lemma checkArgsForFlag_iff:
  "flag \<noteq> [] \<Longrightarrow> checkArgsForFlag args flag \<longleftrightarrow> (\<exists>a\<in>set args. prefix flag a)"
  by (induction args) (auto simp: checkArgsForFlag_def indexOf_zero_iff)

lemma split_space_nonempty: "split_space s \<noteq> []"
  by (induction s) (auto split: list.splits)

lemma classifier_without_argument: "hack_IsErrorAnError None = JSUndefined"
  by (simp add: hack_IsErrorAnError_def indexOf_def parseFloat_isNaN_def starts_number_def strip_sign_def)

lemma classifier_never_true: "\<not> truthy (hack_IsErrorAnError err)"
  by (cases err) (auto simp: hack_IsErrorAnError_def Let_def split_space_nonempty)

lemma on_stderr_data_ignored: "on_stderr_data i d s = s"
  by (simp add: on_stderr_data_def classifier_without_argument)

text \<open>What the filter of the enumerator accepts: the lower-cased text after the last dot
  (the whole name when there is no dot) occurs somewhere inside a listed extension.\<close>

lemma indexOf_from_found: "indexOf_from i s sub \<noteq> - 1 \<longleftrightarrow> sublist sub s"
proof (induction s arbitrary: i)
  case Nil
  then show ?case by simp
next
  case (Cons c cs)
  then show ?case by (simp add: sublist_Cons_right)
qed

lemma findIndex_from_found: "findIndex_from i p xs \<noteq> - 1 \<longleftrightarrow> (\<exists>x\<in>set xs. p x)"
  by (induction xs arbitrary: i) auto

lemma compatible_entry_iff:
  "compatible_entry e \<longleftrightarrow>
     (\<exists>ext\<in>set COMPATIBLE_FILE_EXTS.
        sublist (substr (toLowerCase e) (lastIndexOf e ''.'' + 1)) ext)"
  by (simp add: compatible_entry_def findIndex_def findIndex_from_found indexOf_def
      indexOf_from_found)

section \<open>The invariant is kept\<close>

lemma count_list_update:
  "i < length xs \<Longrightarrow>
   count_list (xs[i := v]) y + (if xs ! i = y then 1 else 0) =
   count_list xs y + (if v = y then 1 else 0)"
proof (induction xs arbitrary: i)
  case Nil
  then show ?case by simp
next
  case (Cons x xs)
  show ?case
  proof (cases i)
    case 0
    then show ?thesis by simp
  next
    case (Suc n)
    then show ?thesis using Cons.IH [of n] Cons.prems by (auto split: if_splits)
  qed
qed

lemma count_list_update_other:
  "i < length xs \<Longrightarrow> xs ! i \<noteq> y \<Longrightarrow> v \<noteq> y \<Longrightarrow> count_list (xs[i := v]) y = count_list xs y"
  using count_list_update [of i xs v y] by simp

lemma count_list_update_gain:
  "i < length xs \<Longrightarrow> xs ! i \<noteq> y \<Longrightarrow> count_list (xs[i := y]) y = Suc (count_list xs y)"
  using count_list_update [of i xs y y] by simp

lemma count_list_update_loss:
  "i < length xs \<Longrightarrow> xs ! i = y \<Longrightarrow> v \<noteq> y \<Longrightarrow> Suc (count_list (xs[i := v]) y) = count_list xs y"
  using count_list_update [of i xs v y] by simp

lemma count_list_snoc: "count_list (xs @ [x]) y = count_list xs y + (if x = y then 1 else 0)"
  by (induction xs) auto

lemma batch_inv_initial: "batch_inv g (initial_state files)"
  by (simp add: batch_inv_def initial_state_def calls_for_def count_list_0_iff)

lemma count_list_pos_nth: "i < length xs \<Longrightarrow> xs ! i = y \<Longrightarrow> 0 < count_list xs y"
  by (metis count_list_0_iff nth_mem not_gr_zero)

lemmas count_update_simps =
  count_list_update_other count_list_update_gain count_list_snoc nth_list_update calls_for_def

lemma batch_inv_suspend:
  assumes "batch_inv g s" "i < length (status s)"
    and "status s ! i = NotStarted \<or> status s ! i = Waiting"
    and "v = Waiting \<or> v = Admitted"
  shows "batch_inv g (s\<lparr>status := (status s)[i := v]\<rparr>)"
  using assms unfolding batch_inv_def
  by (auto simp: count_update_simps)

lemma batch_inv_run_item:
  assumes "batch_inv g s" "i < length (status s)"
    and "status s ! i = NotStarted \<or> status s ! i = Admitted"
  shows "batch_inv g (run_item g i s)"
  using assms unfolding batch_inv_def run_item_def resolve_def
  by (auto simp: count_update_simps Let_def)

lemma batch_inv_on_close:
  assumes "batch_inv g s" "i < length (status s)" "status s ! i = Running"
  shows "batch_inv g (on_close i code s)"
proof -
  have pos: "0 < count_list (status s) Running"
    using assms count_list_pos_nth by fastforce
  have loss: "Suc (count_list ((status s)[i := Finished]) Running) = count_list (status s) Running"
    using assms by (simp add: count_list_update_loss)
  show ?thesis
    using assms pos loss unfolding batch_inv_def on_close_def resolve_def
    by (auto simp: count_update_simps)
qed


lemma run_item_frame [simp]:
  "inputFiles (run_item g i s) = inputFiles s"
  "length (status (run_item g i s)) = length (status s)"
  "j \<noteq> i \<Longrightarrow> status (run_item g i s) ! j = status s ! j"
  by (simp_all add: run_item_def resolve_def Let_def)

lemma start_item_frame [simp]:
  "inputFiles (start_item g i s) = inputFiles s"
  "length (status (start_item g i s)) = length (status s)"
  "j \<noteq> i \<Longrightarrow> status (start_item g i s) ! j = status s ! j"
  by (simp_all add: start_item_def)

lemma on_close_frame [simp]:
  "inputFiles (on_close i code s) = inputFiles s"
  "length (status (on_close i code s)) = length (status s)"
  "j \<noteq> i \<Longrightarrow> status (on_close i code s) ! j = status s ! j"
  by (simp_all add: on_close_def resolve_def)

lemma batch_inv_start_item:
  assumes "batch_inv g s" "i < length (status s)" "status s ! i = NotStarted"
  shows "batch_inv g (start_item g i s)"
  using assms by (simp add: start_item_def batch_inv_suspend batch_inv_run_item)

lemma start_prefix:
  "k \<le> length files \<Longrightarrow>
   batch_inv g (fold (start_item g) [0..<k] (initial_state files)) \<and>
   inputFiles (fold (start_item g) [0..<k] (initial_state files)) = files \<and>
   (\<forall>j. k \<le> j \<and> j < length files \<longrightarrow>
        status (fold (start_item g) [0..<k] (initial_state files)) ! j = NotStarted)"
proof (induction k)
  case 0
  then show ?case by (simp add: batch_inv_initial) (simp add: initial_state_def)
next
  case (Suc k)
  let ?s = "fold (start_item g) [0..<k] (initial_state files)"
  from Suc have inv: "batch_inv g ?s" and files: "inputFiles ?s = files"
    and rest: "\<forall>j. k \<le> j \<and> j < length files \<longrightarrow> status ?s ! j = NotStarted"
    by simp_all
  from inv files have len: "length (status ?s) = length files"
    by (simp add: batch_inv_def)
  have k: "k < length (status ?s)" "status ?s ! k = NotStarted"
    using Suc.prems len rest by simp_all
  have "batch_inv g (start_item g k ?s)"
    using inv k by (rule batch_inv_start_item)
  moreover have "\<forall>j. Suc k \<le> j \<and> j < length files \<longrightarrow> status (start_item g k ?s) ! j = NotStarted"
    using rest by simp
  ultimately show ?case using files by simp
qed

lemma start_batch_inv: "batch_inv g (start_batch g files)"
  and start_batch_files: "inputFiles (start_batch g files) = files"
  using start_prefix [of "length files" files g] by (simp_all add: start_batch_def)

lemma step_inv: "batch_inv g s \<Longrightarrow> step g ev s = Some s' \<Longrightarrow> batch_inv g s'"
  by (cases ev)
     (auto simp: batch_inv_suspend batch_inv_run_item batch_inv_on_close on_stderr_data_ignored
           split: if_splits)

lemma step_files: "step g ev s = Some s' \<Longrightarrow> inputFiles s' = inputFiles s"
  by (cases ev) (auto simp: on_stderr_data_ignored split: if_splits)

lemma run_inv: "batch_inv g s \<Longrightarrow> run g evs s = Some s' \<Longrightarrow> batch_inv g s'"
  by (induction evs arbitrary: s) (auto split: option.splits dest: step_inv)

lemma run_files: "run g evs s = Some s' \<Longrightarrow> inputFiles s' = inputFiles s"
  by (induction evs arbitrary: s) (auto split: option.splits dest: step_files)

lemma reachable_inv:
  assumes "run g evs (start_batch g files) = Some s"
  shows "batch_inv g s" and "inputFiles s = files" and "length (status s) = length files"
proof -
  show inv: "batch_inv g s" using assms start_batch_inv run_inv by blast
  show files: "inputFiles s = files" using assms run_files start_batch_files by fastforce
  show "length (status s) = length files" using inv files by (simp add: batch_inv_def)
qed

lemma count_list_all: "(\<forall>i<length xs. xs ! i = y) \<Longrightarrow> count_list xs y = length xs"
  by (induction xs) (auto, force)

lemma count_list_none: "(\<forall>i<length xs. xs ! i = y) \<Longrightarrow> z \<noteq> y \<Longrightarrow> count_list xs z = 0"
  by (auto simp: count_list_0_iff in_set_conv_nth)

section \<open>Consequences of the invariant\<close>

lemma count_list_pos_iff: "0 < count_list xs x \<longleftrightarrow> x \<in> set xs"
  using count_list_0_iff [of xs x] by auto

lemma batch_resolved_iff:
  "batch_resolved s \<longleftrightarrow> (\<forall>i<length (inputFiles s). 0 < calls_for i (resolved s))"
  by (auto simp: batch_resolved_def list_all_iff calls_for_def count_list_pos_iff)

lemma resolved_all_finished:
  assumes "batch_inv g s"
  shows "batch_resolved s \<longleftrightarrow> (\<forall>i<length (status s). status s ! i = Finished)"
  using assms unfolding batch_resolved_iff batch_inv_def by (auto split: if_splits)

lemma concurrency_counts_running:
  assumes "run g evs (start_batch g files) = Some s"
  shows "concurrency s = int (count_list (status s) Running) \<and> 0 \<le> concurrency s"
  using reachable_inv(1) [OF assms] by (simp add: batch_inv_def)

lemma inv_release_once:
  assumes "batch_inv g s" "\<not> testMode g"
  shows "count_list (increments s) i = calls_for i (spawned s) \<and>
         count_list (decrements s) i \<le> count_list (increments s) i \<and>
         count_list (increments s) i \<le> 1 \<and>
         count_list (decrements s) i = calls_for i (resolved s)"
  using assms unfolding batch_inv_def by simp

lemma inv_at_batch_end:
  assumes inv: "batch_inv g s" and res: "batch_resolved s"
  shows "count_list (status s) Finished = length (status s)"
    and "count_list (status s) Running = 0"
    and "length (resolved s) = length (inputFiles s)"
    and "i < length (status s) \<Longrightarrow> calls_for i (resolved s) = 1"
proof -
  have fin: "\<forall>i<length (status s). status s ! i = Finished"
    using inv res resolved_all_finished by blast
  show all: "count_list (status s) Finished = length (status s)"
    using fin by (rule count_list_all)
  show "count_list (status s) Running = 0"
    using fin by (rule count_list_none) simp
  show "length (resolved s) = length (inputFiles s)"
    using inv all by (simp add: batch_inv_def)
  show "i < length (status s) \<Longrightarrow> calls_for i (resolved s) = 1"
    using inv fin by (simp add: batch_inv_def)
qed

lemma inv_one_outcome: "batch_inv g s \<Longrightarrow> calls_for i (resolved s) \<le> 1"
  by (simp add: batch_inv_def)

lemma close_frame:
  assumes "step g (Close i code) s = Some s'" "j \<noteq> i"
  shows "status s' ! j = status s ! j"
    and "item_of ev = j \<Longrightarrow> (step g ev s' = None) = (step g ev s = None)"
proof -
  from assms(1) have s': "s' = on_close i code s"
    by (simp split: if_splits)
  show "status s' ! j = status s ! j"
    using assms(2) s' by simp
  show "item_of ev = j \<Longrightarrow> (step g ev s' = None) = (step g ev s = None)"
    using assms(2) s' by (cases ev) (simp_all add: item_of_def)
qed

lemma inv_counter_balance:
  assumes "batch_inv g s" "\<not> testMode g"
  shows "concurrency s = int (length (increments s)) - int (length (decrements s))"
  using assms unfolding batch_inv_def by simp

lemma close_releases:
  assumes "step g (Close i code) s = Some s'"
  shows "concurrency s' = concurrency s - 1 \<and> decrements s' = decrements s @ [i] \<and>
         increments s' = increments s \<and> resolved s' = resolved s @ [(i, None)]"
  using assms by (auto simp: on_close_def resolve_def split: if_splits)

lemma stderr_keeps_slot:
  assumes "step g (StderrData i d) s = Some s'"
  shows "s' = s"
  using assms by (simp add: on_stderr_data_ignored split: if_splits)

section \<open>Test mode: the batch is over when \<open>map\<close> returns\<close>

lemma start_item_test_mode:
  assumes "testMode g" "batch_inv g s"
  shows "start_item g k s = resolve k None (s\<lparr>status := (status s)[k := Finished]\<rparr>)"
proof -
  have "concurrency s = 0"
    using assms by (simp add: batch_inv_def)
  then show ?thesis
    using assms(1) by (simp add: start_item_def run_item_def MAX_CONCURRENT_FILES_def)
qed

lemma start_prefix_test:
  assumes "testMode g"
  shows "k \<le> length files \<Longrightarrow>
   resolved (fold (start_item g) [0..<k] (initial_state files)) = map (\<lambda>i. (i, None)) [0..<k] \<and>
   spawned (fold (start_item g) [0..<k] (initial_state files)) = [] \<and>
   (\<forall>j<k. status (fold (start_item g) [0..<k] (initial_state files)) ! j = Finished)"
proof (induction k)
  case 0
  then show ?case by (simp add: initial_state_def)
next
  case (Suc k)
  let ?s = "fold (start_item g) [0..<k] (initial_state files)"
  have inv: "batch_inv g ?s" and files: "inputFiles ?s = files"
    using start_prefix [of k files g] Suc.prems by simp_all
  have len: "length (status ?s) = length files"
    using inv files by (simp add: batch_inv_def)
  have next_state: "fold (start_item g) [0..<Suc k] (initial_state files) =
      resolve k None (?s\<lparr>status := (status ?s)[k := Finished]\<rparr>)"
    using start_item_test_mode [OF assms inv] by simp
  have IH: "resolved ?s = map (\<lambda>i. (i, None)) [0..<k]" "spawned ?s = []"
    "\<forall>j<k. status ?s ! j = Finished"
    using Suc by simp_all
  have "\<forall>j<Suc k. ((status ?s)[k := Finished]) ! j = Finished"
    using IH(3) Suc.prems len by (simp add: nth_list_update less_Suc_eq)
  then show ?case
    unfolding next_state using IH(1,2) by (simp add: resolve_def)
qed

lemma all_finished_no_step:
  "\<forall>i<length (status s). status s ! i = Finished \<Longrightarrow> step g ev s = None"
  by (cases ev) auto

lemma all_finished_run:
  "\<forall>i<length (status s). status s ! i = Finished \<Longrightarrow> run g evs s = Some s' \<Longrightarrow> evs = [] \<and> s' = s"
  by (cases evs) (auto simp: all_finished_no_step)

section \<open>The limit holds when check and count-up are not separated\<close>

lemma admission_inv_start_prefix:
  "k \<le> length files \<Longrightarrow> admission_inv (fold (start_item g) [0..<k] (initial_state files)) \<and>
     count_list (status (fold (start_item g) [0..<k] (initial_state files))) Admitted = 0"
proof (induction k)
  case 0
  then show ?case
    by (simp add: admission_inv_def initial_state_def MAX_CONCURRENT_FILES_def count_list_0_iff)
next
  case (Suc k)
  let ?s = "fold (start_item g) [0..<k] (initial_state files)"
  have inv: "batch_inv g ?s" and files: "inputFiles ?s = files"
    and rest: "\<forall>j. k \<le> j \<and> j < length files \<longrightarrow> status ?s ! j = NotStarted"
    using start_prefix [of k files g] Suc.prems by simp_all
  have k: "k < length (status ?s)" "status ?s ! k = NotStarted"
    using inv files rest Suc.prems by (simp_all add: batch_inv_def)
  have IH: "admission_inv ?s" "count_list (status ?s) Admitted = 0"
    using Suc by simp_all
  have "count_list ((status ?s)[k := v]) Admitted = 0" if "v \<noteq> Admitted" for v
    using k IH(2) that by (simp add: count_list_update_other)
  then have "admission_inv (start_item g k ?s) \<and> count_list (status (start_item g k ?s)) Admitted = 0"
    using IH(1) by (simp add: admission_inv_def start_item_def run_item_def resolve_def Let_def)
  then show ?case by simp
qed

lemma admission_inv_step:
  assumes "admission_inv s" "step g ev s = Some s'" "Admitted \<in> set (status s) \<longrightarrow> is_resume ev"
  shows "admission_inv s'"
proof (cases ev)
  case (Poll i)
  then have none: "count_list (status s) Admitted = 0"
    using assms(3) by (simp add: count_list_0_iff)
  show ?thesis
    using assms(1,2) Poll none
    by (auto simp: admission_inv_def count_list_update_gain split: if_splits)
next
  case (Resume i)
  then have i: "i < length (status s)" "status s ! i = Admitted" and s': "s' = run_item g i s"
    using assms(2) by (simp_all split: if_splits)
  have "Suc (count_list ((status s)[i := v]) Admitted) = count_list (status s) Admitted"
    if "v \<noteq> Admitted" for v
    using i that by (simp add: count_list_update_loss)
  from this [of Running] this [of Finished] show ?thesis
    using assms(1) s' by (auto simp: admission_inv_def run_item_def resolve_def Let_def)
next
  case (StderrData i d)
  then show ?thesis
    using assms(1,2) by (auto simp: on_stderr_data_ignored split: if_splits)
next
  case (Close i code)
  then have i: "i < length (status s)" "status s ! i = Running" and s': "s' = on_close i code s"
    using assms(2) by (simp_all split: if_splits)
  have "count_list ((status s)[i := Finished]) Admitted = count_list (status s) Admitted"
    using i by (simp add: count_list_update_other)
  then show ?thesis
    using assms(1) s' by (simp add: admission_inv_def on_close_def resolve_def)
qed

lemma admission_inv_run_fused:
  "admission_inv s \<Longrightarrow> run_fused g evs s = Some s' \<Longrightarrow> admission_inv s'"
proof (induction evs arbitrary: s)
  case Nil
  then show ?case by simp
next
  case (Cons ev evs)
  from Cons.prems(2) obtain s1 where
    ok: "Admitted \<in> set (status s) \<longrightarrow> is_resume ev" and s1: "step g ev s = Some s1"
    and rest: "run_fused g evs s1 = Some s'"
    by (auto split: if_splits option.splits)
  have "admission_inv s1" using Cons.prems(1) s1 ok by (rule admission_inv_step)
  then show ?case using rest by (rule Cons.IH)
qed

lemma fused_admission_bound:
  assumes "run_fused g evs (start_batch g files) = Some s"
  shows "concurrency s \<le> MAX_CONCURRENT_FILES"
proof -
  have "admission_inv (start_batch g files)"
    using admission_inv_start_prefix [of "length files" files g] by (simp add: start_batch_def)
  then have "admission_inv s" using assms by (rule admission_inv_run_fused)
  then show ?thesis by (simp add: admission_inv_def)
qed

section \<open>Behaviour of the program at concrete inputs\<close>

text \<open>
  C3. The classifier splits the text at spaces and tests the last piece. For
  \<open>"... 12.5"\<close> it returns \<open>false\<close> (benign). For \<open>"Cannot open input file"\<close>, for the
  empty text and for \<open>"... ."\<close> it reaches the end of the function without a
  \<open>return\<close>: the value is \<open>undefined\<close>, which is not truthy, so none of the three is
  reported as an error.
\<close>

theorem classifier_four_inputs:
  "hack_IsErrorAnError (Some ''... 12.5'') = JSBool False \<and>
   hack_IsErrorAnError (Some ''Cannot open input file'') = JSUndefined \<and>
   hack_IsErrorAnError (Some '''') = JSUndefined \<and>
   hack_IsErrorAnError (Some ''... .'') = JSUndefined \<and>
   \<not> truthy JSUndefined"
  by code_simp

text \<open>
  C8. The listing \<open>a.png, b.txt, c.jpeg\<close> yields \<open>a.png, c.jpeg\<close>. The test is whether
  the extension occurs inside one of \<open>png\<close>, \<open>jpg\<close>, \<open>jpeg\<close>, not whether it equals
  one: an entry \<open>d.pn\<close> is yielded as well.
\<close>

theorem enumerator_substring_match:
  "inputFiles_of [''a.png'', ''b.txt'', ''c.jpeg''] = [''a.png'', ''c.jpeg''] \<and>
   inputFiles_of [''a.png'', ''b.txt'', ''c.jpeg'', ''d.pn''] = [''a.png'', ''c.jpeg'', ''d.pn'']"
  by code_simp

text \<open>
  C4. One file, not in test mode, and its process writes \<open>Cannot open input file\<close> to
  stderr. The handler calls the classifier without the text and returns: the state is
  the one before the data arrived, with the item still running, the counter still 1,
  no failure reported and \<open>resolve\<close> not called.
\<close>

theorem stderr_error_text_ignored:
  "run initial_globals [StderrData 0 ''Cannot open input file'']
     (start_batch initial_globals [''a.png'']) =
   Some (start_batch initial_globals [''a.png'']) \<and>
   status (start_batch initial_globals [''a.png'']) = [Running] \<and>
   concurrency (start_batch initial_globals [''a.png'']) = 1 \<and>
   failures (start_batch initial_globals [''a.png'']) = [] \<and>
   resolved (start_batch initial_globals [''a.png'']) = []"
  by code_simp

text \<open>
  C5. Two files, not in test mode. The first process is spawned with the fixed settings
  and its own two arguments; the second with the fixed settings, the two arguments of
  the first file, and then its own.
\<close>

theorem second_spawn_has_first_items_arguments:
  "map snd (spawned (start_batch initial_globals [''a.png'', ''b.png''])) =
     [BASE_WEBP_SETTINGS @
        [output_arg initial_globals ''a.png'', input_arg initial_globals ''a.png''],
      BASE_WEBP_SETTINGS @
        [output_arg initial_globals ''a.png'', input_arg initial_globals ''a.png'',
         output_arg initial_globals ''b.png'', input_arg initial_globals ''b.png'']]"
  by code_simp

text \<open>
  C1. Five files, not in test mode: three processes start and two items suspend. The
  first process closes; the timers of both suspended items then see the counter at 2
  and resolve their promises, and both items resume and count up. The counter is 4,
  above the limit of 3.
\<close>

theorem over_admission_trace:
  "map_option concurrency
     (run initial_globals [Close 0 0, Poll 3, Poll 4, Resume 3, Resume 4]
        (start_batch initial_globals [''a.png'', ''b.png'', ''c.png'', ''d.png'', ''e.png''])) =
   Some 4 \<and> MAX_CONCURRENT_FILES = 3"
  by code_simp

text \<open>
  C7. With the arguments \<open>-c 1\<close> and two images in the input directory, \<open>main\<close> starts
  the batch with the unchanged globals and both processes run at once: the number
  after \<open>-c\<close> is never read.
\<close>

theorem c_flag_has_no_effect:
  "main example_env [''-c'', ''1''] =
     BatchStarted initial_globals (start_batch initial_globals [''a.png'', ''b.png'']) \<and>
   status (start_batch initial_globals [''a.png'', ''b.png'']) = [Running, Running] \<and>
   concurrency (start_batch initial_globals [''a.png'', ''b.png'']) = 2"
  by code_simp

theorem c_flag_has_no_effect_witness:
  "existsSync example_env ''input/'' \<and> existsSync example_env ''output/'' \<and>
   existsSync example_env (cwebpPath example_env) \<and>
   main example_env [''-c'', ''1''] =
     BatchStarted initial_globals (start_batch initial_globals [''a.png'', ''b.png''])"
  using c_flag_has_no_effect by (simp add: example_env_def cwebpPath_def)

section \<open>Properties of every batch and every argument list\<close>

text \<open>
  C2. Not in test mode, in every state a batch can reach (stderr data included): an
  item has counted the counter up exactly when its process was spawned, at most once;
  it has counted down no more often than up; and it has counted down exactly as often
  as \<open>resolve\<close> was called for it. The counter is the number of count-ups minus the
  number of count-downs. The close of a process lowers the counter by one, in the step
  that calls \<open>resolve\<close> for the item; stderr data changes nothing. When the batch has
  resolved, every item has counted up once and down once, there are as many
  count-downs as count-ups, and the counter is 0.
\<close>

theorem slot_released_once:
  assumes "\<not> testMode g" and "run g evs (start_batch g files) = Some s"
  shows "(\<forall>i<length files.
            count_list (increments s) i = calls_for i (spawned s) \<and>
            count_list (decrements s) i \<le> count_list (increments s) i \<and>
            count_list (increments s) i \<le> 1 \<and>
            count_list (decrements s) i = calls_for i (resolved s)) \<and>
         concurrency s = int (length (increments s)) - int (length (decrements s)) \<and>
         (\<forall>i code s'. step g (Close i code) s = Some s' \<longrightarrow>
            concurrency s' = concurrency s - 1 \<and> decrements s' = decrements s @ [i] \<and>
            increments s' = increments s \<and> resolved s' = resolved s @ [(i, None)]) \<and>
         (\<forall>i d s'. step g (StderrData i d) s = Some s' \<longrightarrow> s' = s) \<and>
         (batch_resolved s \<longrightarrow>
            (\<forall>i<length files.
               count_list (increments s) i = 1 \<and> count_list (decrements s) i = 1) \<and>
            length (decrements s) = length (increments s) \<and>
            concurrency s = 0)"
proof -
  have inv: "batch_inv g s" and len: "length (status s) = length files"
    using assms(2) by (rule reachable_inv)+
  have always: "\<forall>i<length files.
            count_list (increments s) i = calls_for i (spawned s) \<and>
            count_list (decrements s) i \<le> count_list (increments s) i \<and>
            count_list (increments s) i \<le> 1 \<and>
            count_list (decrements s) i = calls_for i (resolved s)"
    using inv_release_once [OF inv assms(1)] by blast
  have balance: "concurrency s = int (length (increments s)) - int (length (decrements s))"
    using inv assms(1) by (rule inv_counter_balance)
  have closes: "\<forall>i code s'. step g (Close i code) s = Some s' \<longrightarrow>
            concurrency s' = concurrency s - 1 \<and> decrements s' = decrements s @ [i] \<and>
            increments s' = increments s \<and> resolved s' = resolved s @ [(i, None)]"
    using close_releases by blast
  have data: "\<forall>i d s'. step g (StderrData i d) s = Some s' \<longrightarrow> s' = s"
    using stderr_keeps_slot by blast
  have "at_end": "(\<forall>i<length files.
               count_list (increments s) i = 1 \<and> count_list (decrements s) i = 1) \<and>
            length (decrements s) = length (increments s) \<and> concurrency s = 0"
    if res: "batch_resolved s"
  proof -
    have fin: "\<forall>i<length (status s). status s ! i = Finished"
      using inv res resolved_all_finished by blast
    have "\<forall>i<length files.
               count_list (increments s) i = 1 \<and> count_list (decrements s) i = 1"
      using inv fin len assms(1) by (simp add: batch_inv_def)
    moreover have same: "length (decrements s) = length (increments s)"
      using inv inv_at_batch_end(2) [OF inv res] assms(1) by (simp add: batch_inv_def)
    moreover have "concurrency s = 0"
      using balance same by simp
    ultimately show ?thesis by blast
  qed
  show ?thesis using always balance closes data "at_end" by blast
qed

theorem slot_released_once_witness:
  "\<not> testMode initial_globals \<and>
   run initial_globals [StderrData 0 ''Error: bad file'', Close 0 1]
     (start_batch initial_globals [''a.png'']) =
   Some (on_close 0 1 (start_batch initial_globals [''a.png''])) \<and>
   batch_resolved (on_close 0 1 (start_batch initial_globals [''a.png''])) \<and>
   count_list (increments (on_close 0 1 (start_batch initial_globals [''a.png'']))) 0 = 1 \<and>
   count_list (decrements (on_close 0 1 (start_batch initial_globals [''a.png'']))) 0 = 1 \<and>
   length (decrements (on_close 0 1 (start_batch initial_globals [''a.png'']))) =
   length (increments (on_close 0 1 (start_batch initial_globals [''a.png'']))) \<and>
   concurrency (start_batch initial_globals [''a.png'']) = 1 \<and>
   concurrency (on_close 0 1 (start_batch initial_globals [''a.png''])) = 0"
proof -
  let ?s = "on_close 0 1 (start_batch initial_globals [''a.png''])"
  have h1: "\<not> testMode initial_globals"
    by (simp add: initial_globals_def)
  have h2: "run initial_globals [StderrData 0 ''Error: bad file'', Close 0 1]
     (start_batch initial_globals [''a.png'']) = Some ?s"
    by code_simp
  have h3: "batch_resolved ?s"
    by code_simp
  have h4: "concurrency (start_batch initial_globals [''a.png'']) = 1"
    by code_simp
  have "(\<forall>i<length [''a.png''].
            count_list (increments ?s) i = 1 \<and> count_list (decrements ?s) i = 1) \<and>
        length (decrements ?s) = length (increments ?s) \<and> concurrency ?s = 0"
    using slot_released_once [OF h1 h2] h3 by blast
  then show ?thesis
    using h1 h2 h3 h4 by simp
qed

text \<open>
  C6. In every state a batch can reach, \<open>resolve\<close> has been called at most once for
  each item. When the batch has resolved, it has been called exactly once for each
  item, so there are as many outcomes as files, for any number of files. The close of
  a process, with any exit code, changes the status of no other item, and every event
  of another item that could happen before can happen after.
\<close>

theorem every_item_one_outcome:
  assumes "run g evs (start_batch g files) = Some s"
  shows "(\<forall>i<length files. calls_for i (resolved s) \<le> 1) \<and>
         (batch_resolved s \<longrightarrow>
            length (resolved s) = length files \<and>
            (\<forall>i<length files. calls_for i (resolved s) = 1)) \<and>
         (\<forall>i code s' j ev.
            step g (Close i code) s = Some s' \<and> j \<noteq> i \<longrightarrow>
              status s' ! j = status s ! j \<and>
              (item_of ev = j \<longrightarrow> (step g ev s' = None) = (step g ev s = None)))"
proof -
  have inv: "batch_inv g s" and files: "inputFiles s = files"
    and len: "length (status s) = length files"
    using assms by (rule reachable_inv)+
  have "\<forall>i<length files. calls_for i (resolved s) \<le> 1"
    using inv inv_one_outcome by blast
  moreover have "batch_resolved s \<longrightarrow>
            length (resolved s) = length files \<and>
            (\<forall>i<length files. calls_for i (resolved s) = 1)"
    using inv_at_batch_end(3,4) [OF inv] files len by auto
  moreover have "\<forall>i code s' j ev.
            step g (Close i code) s = Some s' \<and> j \<noteq> i \<longrightarrow>
              status s' ! j = status s ! j \<and>
              (item_of ev = j \<longrightarrow> (step g ev s' = None) = (step g ev s = None))"
    using close_frame by blast
  ultimately show ?thesis by blast
qed

theorem every_item_one_outcome_witness:
  "run initial_globals [Close 0 1, Close 1 0] (start_batch initial_globals [''a.png'', ''b.png'']) =
   Some (on_close 1 0 (on_close 0 1 (start_batch initial_globals [''a.png'', ''b.png'']))) \<and>
   batch_resolved (on_close 1 0 (on_close 0 1 (start_batch initial_globals [''a.png'', ''b.png'']))) \<and>
   length (resolved (on_close 1 0 (on_close 0 1 (start_batch initial_globals [''a.png'', ''b.png''])))) = 2 \<and>
   calls_for 0 (resolved (on_close 1 0 (on_close 0 1 (start_batch initial_globals [''a.png'', ''b.png''])))) = 1 \<and>
   calls_for 1 (resolved (on_close 1 0 (on_close 0 1 (start_batch initial_globals [''a.png'', ''b.png''])))) = 1"
proof -
  let ?s = "on_close 1 0 (on_close 0 1 (start_batch initial_globals [''a.png'', ''b.png'']))"
  have h1: "run initial_globals [Close 0 1, Close 1 0]
      (start_batch initial_globals [''a.png'', ''b.png'']) = Some ?s"
    by code_simp
  have h2: "batch_resolved ?s"
    by code_simp
  have "length (resolved ?s) = length [''a.png'', ''b.png''] \<and>
      (\<forall>i<length [''a.png'', ''b.png'']. calls_for i (resolved ?s) = 1)"
    using every_item_one_outcome [OF h1] h2 by blast
  then show ?thesis
    using h1 h2 by simp
qed

text \<open>
  C9. In test mode the batch has resolved when \<open>map\<close> returns: \<open>resolve\<close> was called
  once for each file, in order and without an error text, no process was spawned, and
  no event can follow.
\<close>

theorem dry_run_all_success:
  assumes "testMode g" and "run g evs (start_batch g files) = Some s"
  shows "s = start_batch g files \<and> batch_resolved s \<and>
         resolved s = map (\<lambda>i. (i, None)) [0..<length files] \<and>
         length (resolved s) = length files \<and> spawned s = []"
proof -
  let ?s0 = "start_batch g files"
  have start: "resolved ?s0 = map (\<lambda>i. (i, None)) [0..<length files]" "spawned ?s0 = []"
    "\<forall>j<length files. status ?s0 ! j = Finished"
    using start_prefix_test [OF assms(1), of "length files" files]
    by (simp_all add: start_batch_def)
  have inv: "batch_inv g ?s0" by (rule start_batch_inv)
  have len: "length (status ?s0) = length files"
    using inv start_batch_files [of g files] by (simp add: batch_inv_def)
  have fin: "\<forall>i<length (status ?s0). status ?s0 ! i = Finished"
    using start(3) len by simp
  have same: "s = ?s0"
    using all_finished_run [OF fin assms(2)] by simp
  have "batch_resolved ?s0"
    using inv fin resolved_all_finished by blast
  then show ?thesis using same start by simp
qed

theorem dry_run_all_success_witness:
  "testMode (initial_globals\<lparr>testMode := True\<rparr>) \<and>
   run (initial_globals\<lparr>testMode := True\<rparr>) []
     (start_batch (initial_globals\<lparr>testMode := True\<rparr>) [''a.png'', ''b.jpg'', ''c.jpeg'']) =
   Some (start_batch (initial_globals\<lparr>testMode := True\<rparr>) [''a.png'', ''b.jpg'', ''c.jpeg'']) \<and>
   batch_resolved (start_batch (initial_globals\<lparr>testMode := True\<rparr>) [''a.png'', ''b.jpg'', ''c.jpeg'']) \<and>
   resolved (start_batch (initial_globals\<lparr>testMode := True\<rparr>) [''a.png'', ''b.jpg'', ''c.jpeg'']) =
     [(0, None), (1, None), (2, None)] \<and>
   spawned (start_batch (initial_globals\<lparr>testMode := True\<rparr>) [''a.png'', ''b.jpg'', ''c.jpeg'']) = []"
proof -
  let ?g = "initial_globals\<lparr>testMode := True\<rparr>"
  have h1: "testMode ?g" by simp
  have h2: "run ?g [] (start_batch ?g [''a.png'', ''b.jpg'', ''c.jpeg'']) =
      Some (start_batch ?g [''a.png'', ''b.jpg'', ''c.jpeg''])" by simp
  have "[0..<length [''a.png'', ''b.jpg'', ''c.jpeg'']] = [0, Suc 0, 2]"
    by code_simp
  then show ?thesis
    using h1 h2 dry_run_all_success [OF h1 h2] by simp
qed

text \<open>
  C10. A flag \<open>-h\<close>, \<open>-s\<close> or \<open>-t\<close> is detected exactly when some argument begins
  with it. An argument beginning with \<open>-h\<close> makes \<open>main\<close> show the help and return.
  When no argument begins with \<open>-h\<close>, silent mode is on exactly when some argument
  begins with \<open>-s\<close>, and test mode exactly when some argument begins with \<open>-t\<close>.
\<close>

theorem prefix_flags:
  "(checkArgsForFlag args ''-h'' \<longleftrightarrow> (\<exists>a\<in>set args. prefix ''-h'' a)) \<and>
   (checkArgsForFlag args ''-s'' \<longleftrightarrow> (\<exists>a\<in>set args. prefix ''-s'' a)) \<and>
   (checkArgsForFlag args ''-t'' \<longleftrightarrow> (\<exists>a\<in>set args. prefix ''-t'' a)) \<and>
   setup_flags args g =
     (if \<exists>a\<in>set args. prefix ''-h'' a then (True, g)
      else (False, g\<lparr>silentMode := (\<exists>a\<in>set args. prefix ''-s'' a),
                      testMode := (\<exists>a\<in>set args. prefix ''-t'' a)\<rparr>))"
  by (simp add: setup_flags_def checkArgsForFlag_iff)

theorem prefix_flags_witness:
  "checkArgsForFlag [''-silent'', ''out''] ''-s'' \<and>
   \<not> checkArgsForFlag [''-silent'', ''out''] ''-h'' \<and>
   \<not> checkArgsForFlag [''-silent'', ''out''] ''-t'' \<and>
   setup_flags [''-silent'', ''out''] initial_globals =
     (False, initial_globals\<lparr>silentMode := True, testMode := False\<rparr>)"
  using prefix_flags [of "[''-silent'', ''out'']" initial_globals] by simp

text \<open>
  C10 as stated fails for the arguments \<open>-h -s\<close>: the second begins with \<open>-s\<close>, but
  \<open>main\<close> returns after the help and silent mode stays off.
\<close>

theorem help_masks_silent_counterexample:
  "''-s'' \<in> set [''-h'', ''-s''] \<and> prefix ''-s'' ''-s'' \<and>
   fst (setup_flags [''-h'', ''-s''] initial_globals) \<and>
   \<not> silentMode (snd (setup_flags [''-h'', ''-s''] initial_globals))"
  by code_simp

end
